theory Spec2Isabelle
  imports Main
begin

section \<open>Registered domains: the suffix tree of dkim-regdom.c, its parser and its matcher\<close>

text \<open>
  A C string is modelled by the list of its characters before the terminating NUL.
  Allocation and release (\<^verbatim>\<open>malloc\<close>, \<^verbatim>\<open>free\<close>, \<^verbatim>\<open>freeDomLabels\<close>) do not
  change any value that is returned and are left out. Positions in a text and counts
  are natural numbers: the C \<open>int\<close> positions stay between 0 and \<open>len + 1\<close>.
\<close>

subsection \<open>Data types\<close>

text \<open>
  \<^verbatim>\<open>struct tldnode { char *dom; const char *attr; unsigned int num_children;
  struct tldnode **subnodes; }\<close>.
  The field \<open>attr\<close> is either null or the address of the constant \<^verbatim>\<open>THIS\<close>, and the
  code only ever compares it with that address: it is the boolean \<open>attr\<close> here.
  \<open>num_children\<close> is the length of \<open>subnodes\<close>.
\<close>

datatype tldnode = Tldnode (dom: string) (attr: bool) (subnodes: "tldnode list")

definition num_children :: "tldnode \<Rightarrow> nat" where
  "num_children node = length (subnodes node)"

text \<open>
  \<^verbatim>\<open>struct dlist { const char *val; struct dlist *next; }\<close>: a null-terminated
  linked list of labels, a \<open>string list\<close> here; the null pointer is the empty list.
\<close>

type_synonym dlist = "string list"

definition ALL_label :: string where
  "ALL_label = ''*''"

subsection \<open>The one-level lookup\<close>

text \<open>
  \<^verbatim>\<open>findTldNode\<close>: the loop over \<open>parent->subnodes\<close>, with the local \<open>allNode\<close>
  as an accumulator (\<open>None\<close> is the null pointer).
\<close>

fun findTldNode_loop :: "tldnode list \<Rightarrow> string \<Rightarrow> tldnode option \<Rightarrow> tldnode option" where
  "findTldNode_loop [] subdom allNode = allNode"
| "findTldNode_loop (n # ns) subdom allNode =
     (if subdom = dom n then Some n
      else findTldNode_loop ns subdom
             (if allNode = None \<and> ALL_label = dom n then Some n else allNode))"

definition findTldNode :: "tldnode \<Rightarrow> string \<Rightarrow> tldnode option" where
  "findTldNode parent subdom = findTldNode_loop (subnodes parent) subdom None"

subsection \<open>Concatenation of a label and its parent domain\<close>

text \<open>\<^verbatim>\<open>concatDomLabel(dl, du)\<close>: a copy of \<open>du\<close> when \<open>dl\<close> is null, else \<open>dl.du\<close>.\<close>

definition concatDomLabel :: "string option \<Rightarrow> string \<Rightarrow> string" where
  "concatDomLabel dl du = (case dl of None \<Rightarrow> du | Some l \<Rightarrow> l @ ''.'' @ du)"

subsection \<open>The recursive walk\<close>

text \<open>
  \<^verbatim>\<open>findRegisteredDomain(subtree, dom)\<close>. The list cell \<open>dom\<close> is dereferenced
  at once, so it is never null: it is given by its two fields, \<open>val\<close> and \<open>nxt\<close>
  (the C field \<open>next\<close>).
\<close>

fun findRegisteredDomain :: "tldnode \<Rightarrow> string \<Rightarrow> dlist \<Rightarrow> string option" where
  "findRegisteredDomain subtree val nxt =
     (case findTldNode subtree val of
        None \<Rightarrow> Some val
      | Some subNode \<Rightarrow>
          if num_children subNode = 1 \<and> attr (subnodes subNode ! 0) then Some val
          else (case nxt of
                  [] \<Rightarrow> None
                | val' # nxt' \<Rightarrow>
                    (case findRegisteredDomain subNode val' nxt' of
                       None \<Rightarrow> None
                     | Some fRegDom \<Rightarrow> Some (concatDomLabel (Some fRegDom) val))))"

declare findRegisteredDomain.simps [simp del]

subsection \<open>Splitting the host name\<close>

text \<open>
  \<^verbatim>\<open>strtok_r(str, delim, &saveptr)\<close> of the C library, on the text that is still to
  be scanned: skip the leading delimiters; with nothing left there is no token;
  otherwise the token runs up to the next delimiter, which is overwritten with NUL,
  and the scan resumes behind it. The result is the token and the text left.
\<close>

definition strtok_r :: "string \<Rightarrow> string \<Rightarrow> (string \<times> string) option" where
  "strtok_r s delim =
     (let s1 = dropWhile (\<lambda>c. c \<in> set delim) s in
      if s1 = [] then None
      else Some (takeWhile (\<lambda>c. c \<notin> set delim) s1,
                 drop 1 (dropWhile (\<lambda>c. c \<notin> set delim) s1)))"

text \<open>
  The \<^verbatim>\<open>while (token)\<close> loop of \<^verbatim>\<open>getRegisteredDomainDropI\<close>: every token is
  put in front of the list \<open>head\<close>.
\<close>

function split_loop :: "string \<Rightarrow> dlist \<Rightarrow> dlist" where
  "split_loop s head =
     (case strtok_r s ''.'' of
        None \<Rightarrow> head
      | Some (token, rest) \<Rightarrow> split_loop rest (token # head))"
  by pat_completeness auto
termination
proof (relation "measure (\<lambda>(s, head). length s)")
  show "wf (measure (\<lambda>(s, head). length s))"
    by simp
next
  fix s :: string and head :: dlist and x2 token rest
  assume t: "strtok_r s ''.'' = Some x2" and x: "(token, rest) = x2"
  define s1 where "s1 = dropWhile (\<lambda>c. c \<in> set ''.'') s"
  define s2 where "s2 = dropWhile (\<lambda>c. c \<notin> set ''.'') s1"
  have ne: "s1 \<noteq> []"
    using t unfolding strtok_r_def Let_def s1_def by (metis option.distinct(1))
  then have r: "rest = drop 1 s2"
    using t x unfolding strtok_r_def Let_def s1_def s2_def by (auto split: if_splits)
  have l1: "length s1 \<le> length s"
    unfolding s1_def by (rule length_dropWhile_le)
  have l2: "length s2 \<le> length s1"
    unfolding s2_def by (rule length_dropWhile_le)
  have l3: "0 < length s1"
    using ne by simp
  have "length rest = length s2 - 1"
    unfolding r by simp
  with l1 l2 l3 have "length rest < length s"
    by arith
  then show "((rest, token # head), (s, head)) \<in> measure (\<lambda>(s, head). length s)"
    by simp
qed

declare split_loop.simps [simp del]

definition split_hostname :: "string \<Rightarrow> dlist" where
  "split_hostname hostname = split_loop hostname []"

subsection \<open>The top-level disposition\<close>

text \<open>
  \<^verbatim>\<open>getRegisteredDomainDropI\<close>; \<^verbatim>\<open>strchr(result, '.')\<close> is null exactly when the
  result has no dot. \<open>drop_unknown\<close> is a C \<open>int\<close>, true when not zero.
\<close>

definition getRegisteredDomainDropI :: "string \<Rightarrow> tldnode \<Rightarrow> int \<Rightarrow> string option" where
  "getRegisteredDomainDropI hostname tree drop_unknown =
     (case split_hostname hostname of
        [] \<Rightarrow> None
      | val # nxt \<Rightarrow>
          (case findRegisteredDomain tree val nxt of
             None \<Rightarrow> None
           | Some result \<Rightarrow>
               if CHR ''.'' \<notin> set result then
                 (case nxt of
                    [] \<Rightarrow> None
                  | val' # nxt' \<Rightarrow>
                      if drop_unknown \<noteq> 0 then None
                      else Some (concatDomLabel (Some val') val))
               else Some result))"

definition getRegisteredDomainDrop :: "string \<Rightarrow> tldnode \<Rightarrow> int \<Rightarrow> string option" where
  "getRegisteredDomainDrop hostname tree drop_unknown =
     getRegisteredDomainDropI hostname tree drop_unknown"

definition getRegisteredDomain :: "string \<Rightarrow> tldnode \<Rightarrow> string option" where
  "getRegisteredDomain hostname tree = getRegisteredDomainDropI hostname tree 0"

subsection \<open>Reading the rule text\<close>

text \<open>
  What the parser can do beside returning a node:
  \<^item> \<open>OutOfBounds\<close>: the C code reads \<open>s[pos]\<close> behind the terminating NUL;
  \<^item> \<open>NullDom\<close>: the C function returns with \<open>node->dom\<close> still null (the text ends
    inside a label); no value of \<open>tldnode\<close> stands for such a node.
\<close>

datatype error = OutOfBounds | NullDom

text \<open>\<open>s[pos]\<close> on a C string: behind its characters comes the terminating NUL.\<close>

definition char_at :: "string \<Rightarrow> nat \<Rightarrow> error + char" where
  "char_at s pos =
     (if pos < length s then Inr (s ! pos)
      else if pos = length s then Inr (CHR 0x00)
      else Inl OutOfBounds)"

text \<open>
  \<^verbatim>\<open>atoi\<close> of the C library: white space, an optional sign, then the decimal digits up
  to the first character that is none. The model keeps the mathematical value; in C a
  value outside the range of \<open>int\<close> is undefined.
\<close>

definition isspace :: "char \<Rightarrow> bool" where
  "isspace c = (c = CHR '' '' \<or> (9 \<le> (of_char c :: nat) \<and> (of_char c :: nat) \<le> 13))"

definition isdigit :: "char \<Rightarrow> bool" where
  "isdigit c = (48 \<le> (of_char c :: nat) \<and> (of_char c :: nat) \<le> 57)"

fun atoi_digits :: "int \<Rightarrow> string \<Rightarrow> int" where
  "atoi_digits acc [] = acc"
| "atoi_digits acc (c # cs) =
     (if isdigit c then atoi_digits (acc * 10 + (int (of_char c) - 48)) cs else acc)"

definition atoi :: "string \<Rightarrow> int" where
  "atoi s =
     (let r = dropWhile isspace s in
      if r \<noteq> [] \<and> hd r = CHR ''-'' then - atoi_digits 0 (tl r)
      else if r \<noteq> [] \<and> hd r = CHR ''+'' then atoi_digits 0 (tl r)
      else atoi_digits 0 r)"

text \<open>
  The node that \<^verbatim>\<open>readTldString\<close> hands back when it returns \<open>pos\<close>: the fields as
  they are at that moment.
\<close>

definition return_node :: "string option \<Rightarrow> bool \<Rightarrow> tldnode list \<Rightarrow> nat \<Rightarrow> error + (tldnode \<times> nat)" where
  "return_node dom_field attr_field subs pos =
     (case dom_field of
        None \<Rightarrow> Inl NullDom
      | Some d \<Rightarrow> Inr (Tldnode d attr_field subs, pos))"

text \<open>
  \<^verbatim>\<open>readTldString(node, s, len, pos)\<close>. The result is the node that the call fills in
  and the position that it returns.
  \<^item> \<open>readTldString\<close> is the entry: \<open>start = pos\<close>, \<open>state = 0\<close>, the node zeroed.
  \<^item> \<open>readTldString_loop\<close> is one round of the \<^verbatim>\<open>do ... while (pos < len)\<close> loop, with
    the locals \<open>start\<close> and \<open>state\<close> and the fields \<open>dom\<close> and \<open>attr\<close> of the node as
    arguments. In state 0, at a delimiter, the label is the text from \<open>start\<close> of length
    \<open>lenc\<close>.
  \<^item> \<open>readTldString_children\<close> is the \<^verbatim>\<open>for\<close> loop over the children: \<open>n\<close> children are
    still to be read, each from \<open>pos + 1\<close>.
  The call for a child returns a position that is not in front of the one it started
  from (\<open>readTldString_pos_mono\<close>), and no call reads behind the NUL: this is why the
  recursion ends on every text.
\<close>

function readTldString :: "string \<Rightarrow> nat \<Rightarrow> nat \<Rightarrow> error + (tldnode \<times> nat)"
  and readTldString_loop ::
    "string \<Rightarrow> nat \<Rightarrow> string option \<Rightarrow> bool \<Rightarrow> nat \<Rightarrow> nat \<Rightarrow> nat \<Rightarrow> error + (tldnode \<times> nat)"
  and readTldString_children ::
    "string \<Rightarrow> nat \<Rightarrow> nat \<Rightarrow> nat \<Rightarrow> error + (tldnode list \<times> nat)"
where
  "readTldString s len pos = readTldString_loop s len None False pos 0 pos"
| "readTldString_loop s len dom_field attr_field start state pos =
     (case char_at s pos of
        Inl e \<Rightarrow> Inl e
      | Inr c \<Rightarrow>
          if state = 0 then
            if c = CHR '','' \<or> c = CHR '')'' \<or> c = CHR ''('' then
              (let lenc = (if attr_field then pos - start - 1 else pos - start);
                   d = take lenc (drop start s)
               in if c = CHR ''('' then
                    if pos + 1 < len
                    then readTldString_loop s len (Some d) attr_field pos 1 (pos + 1)
                    else return_node (Some d) attr_field [] (pos + 1)
                  else Inr (Tldnode d attr_field [], pos))
            else
              (let a = (attr_field \<or> c = CHR ''!'')
               in if pos + 1 < len
                  then readTldString_loop s len dom_field a start state (pos + 1)
                  else return_node dom_field a [] (pos + 1))
          else
            if c = CHR '':'' then
              (let buf = take (pos - start - 1) (drop (start + 1) s);
                   n = nat (atoi buf mod 2 ^ 32)
               in case readTldString_children s len n pos of
                    Inl e \<Rightarrow> Inl e
                  | Inr (subs, pos') \<Rightarrow> return_node dom_field attr_field subs (pos' + 1))
            else
              if pos + 1 < len
              then readTldString_loop s len dom_field attr_field start state (pos + 1)
              else return_node dom_field attr_field [] (pos + 1))"
| "readTldString_children s len 0 pos = Inr ([], pos)"
| "readTldString_children s len (Suc n) pos =
     (case readTldString s len (pos + 1) of
        Inl e \<Rightarrow> Inl e
      | Inr (child, pos1) \<Rightarrow>
          (case readTldString_children s len n pos1 of
             Inl e \<Rightarrow> Inl e
           | Inr (subs, pos2) \<Rightarrow> Inr (child # subs, pos2)))"
  by pat_completeness auto

text \<open>
  Termination. A successful read is inside the text or at its NUL, and a call that
  returns a node returns a position that is not in front of its own.
\<close>

lemma char_at_Inr: "char_at s pos = Inr c \<Longrightarrow> pos \<le> length s"
  by (simp add: char_at_def split: if_splits)

lemma readTldString_pos_mono:
  shows "readTldString_readTldString_loop_readTldString_children_dom (Inl (s, len, pos)) \<Longrightarrow>
           readTldString s len pos = Inr (node, p) \<Longrightarrow> pos \<le> p"
    and "readTldString_readTldString_loop_readTldString_children_dom
           (Inr (Inl (s, len, dom_field, attr_field, start, state, pos))) \<Longrightarrow>
           readTldString_loop s len dom_field attr_field start state pos = Inr (node, p) \<Longrightarrow> pos \<le> p"
    and "readTldString_readTldString_loop_readTldString_children_dom (Inr (Inr (s, len, n, pos))) \<Longrightarrow>
           readTldString_children s len n pos = Inr (subs, p) \<Longrightarrow> pos \<le> p"
proof (induct arbitrary: node p and node p and subs p
    rule: readTldString_readTldString_loop_readTldString_children.pinduct)
  case (1 s len pos)
  then show ?case
    by (simp add: readTldString.psimps)
next
  case (2 s len dom_field attr_field start state pos)
  from "2.prems" "2.hyps"(1) have r: "(case char_at s pos of
        Inl e \<Rightarrow> Inl e
      | Inr c \<Rightarrow>
          if state = 0 then
            if c = CHR '','' \<or> c = CHR '')'' \<or> c = CHR ''('' then
              (let lenc = (if attr_field then pos - start - 1 else pos - start);
                   d = take lenc (drop start s)
               in if c = CHR ''('' then
                    if pos + 1 < len
                    then readTldString_loop s len (Some d) attr_field pos 1 (pos + 1)
                    else return_node (Some d) attr_field [] (pos + 1)
                  else Inr (Tldnode d attr_field [], pos))
            else
              (let a = (attr_field \<or> c = CHR ''!'')
               in if pos + 1 < len
                  then readTldString_loop s len dom_field a start state (pos + 1)
                  else return_node dom_field a [] (pos + 1))
          else
            if c = CHR '':'' then
              (let buf = take (pos - start - 1) (drop (start + 1) s);
                   n = nat (atoi buf mod 2 ^ 32)
               in case readTldString_children s len n pos of
                    Inl e \<Rightarrow> Inl e
                  | Inr (subs, pos') \<Rightarrow> return_node dom_field attr_field subs (pos' + 1))
            else
              if pos + 1 < len
              then readTldString_loop s len dom_field attr_field start state (pos + 1)
              else return_node dom_field attr_field [] (pos + 1)) = Inr (node, p)"
    by (simp only: readTldString_loop.psimps)
  obtain c where c: "char_at s pos = Inr c"
    using r by (cases "char_at s pos") auto
  show ?case
  proof (cases "state = 0")
    case True
    show ?thesis
    proof (cases "c = CHR '','' \<or> c = CHR '')'' \<or> c = CHR ''(''")
      case delim: True
      show ?thesis
      proof (cases "c = CHR ''(''")
        case op: True
        show ?thesis
        proof (cases "pos + 1 < len")
          case lt: True
          have "pos + 1 \<le> p"
            using r c True op lt "2.hyps"(2) [OF c True delim refl refl op lt]
            by (simp add: Let_def)
          then show ?thesis by simp
        next
          case False
          then show ?thesis
            using r c True op by (simp add: Let_def return_node_def)
        qed
      next
        case False
        then show ?thesis
          using r c True delim by (auto simp: Let_def)
      qed
    next
      case nodelim: False
      show ?thesis
      proof (cases "pos + 1 < len")
        case lt: True
        have "pos + 1 \<le> p"
          using r c True nodelim lt "2.hyps"(3) [OF c True nodelim refl lt]
          by (simp add: Let_def)
        then show ?thesis by simp
      next
        case False
        then show ?thesis
          using r c True nodelim by (auto simp: Let_def return_node_def split: option.splits)
      qed
    qed
  next
    case st: False
    show ?thesis
    proof (cases "c = CHR '':''")
      case True
      define n where "n = nat (atoi (take (pos - start - 1) (drop (start + 1) s)) mod 2 ^ 32)"
      have r': "(case readTldString_children s len n pos of
                   Inl e \<Rightarrow> Inl e
                 | Inr (subs, pos') \<Rightarrow> return_node dom_field attr_field subs (pos' + 1)) =
                Inr (node, p)"
        using r c st True by (simp add: Let_def n_def)
      then obtain subs pos' where k: "readTldString_children s len n pos = Inr (subs, pos')"
        by (cases "readTldString_children s len n pos") auto
      with r' have "return_node dom_field attr_field subs (pos' + 1) = Inr (node, p)"
        by simp
      then have "p = pos' + 1"
        by (auto simp: return_node_def split: option.splits)
      moreover have "pos \<le> pos'"
        using "2.hyps"(4) [OF c st True refl refl k [unfolded n_def]] .
      ultimately show ?thesis
        by simp
    next
      case nc: False
      show ?thesis
      proof (cases "pos + 1 < len")
        case lt: True
        have "pos + 1 \<le> p"
          using r c st nc lt "2.hyps"(5) [OF c st nc lt]
          by (simp add: Let_def)
        then show ?thesis by simp
      next
        case False
        then show ?thesis
          using r c st nc by (auto simp: Let_def return_node_def split: option.splits)
      qed
    qed
  qed
next
  case (3 s len pos)
  then show ?case
    by (simp add: readTldString_children.psimps)
next
  case (4 s len n pos)
  from "4.prems" "4.hyps"(1) have r: "(case readTldString s len (pos + 1) of
        Inl e \<Rightarrow> Inl e
      | Inr (child, pos1) \<Rightarrow>
          (case readTldString_children s len n pos1 of
             Inl e \<Rightarrow> Inl e
           | Inr (subs, pos2) \<Rightarrow> Inr (child # subs, pos2))) = Inr (subs, p)"
    by (simp only: readTldString_children.psimps)
  then obtain child pos1 where a: "readTldString s len (pos + 1) = Inr (child, pos1)"
    by (cases "readTldString s len (pos + 1)") auto
  then obtain subs' where b: "readTldString_children s len n pos1 = Inr (subs', p)"
    using r by (cases "readTldString_children s len n pos1") auto
  have "pos + 1 \<le> pos1"
    using "4.hyps"(2) [OF a] .
  moreover have "pos1 \<le> p"
    using "4.hyps"(3) [OF a refl b] .
  ultimately show ?case
    by simp
qed

termination readTldString
  apply (relation "inv_image (less_than <*lex*> less_than)
        (\<lambda>x. case x of
           Inl (s, len, pos) \<Rightarrow> (3 * (max len (length s) + 2 - pos) + 3, 0)
         | Inr (Inl (s, len, dom_field, attr_field, start, state, pos)) \<Rightarrow>
             (3 * (max len (length s) + 2 - pos) + 2, 0)
         | Inr (Inr (s, len, n, pos)) \<Rightarrow> (3 * (max len (length s) + 2 - (pos + 1)) + 4, n))")
         apply auto
  subgoal for s len state pos
    using char_at_Inr [of s pos "CHR '':''"] by auto
  subgoal for s len pos a b
    using readTldString_pos_mono(1) [of s len "Suc pos" a b] by auto
  done

declare readTldString_loop.simps [simp del]

text \<open>
  \<^verbatim>\<open>loadTldTree\<close>: the rule text \<open>tldString\<close> comes from the generated header
  \<^verbatim>\<open>tld-canon.h\<close> and is an argument here; \<open>len\<close> is \<^verbatim>\<open>sizeof tldString - 1\<close>, and the
  position that \<open>readTldString\<close> returns is dropped.
\<close>

definition loadTldTree :: "string \<Rightarrow> error + tldnode" where
  "loadTldTree tldString =
     (case readTldString tldString (length tldString) 0 of
        Inl e \<Rightarrow> Inl e
      | Inr (root, pos) \<Rightarrow> Inr root)"

subsection \<open>The encoding of a tree\<close>

text \<open>
  Modelled from the spec: the generator of the rule text is not in the repository.
  This is the grammar of the specification, read as a function from a tree to its
  text: the label, \<open>!\<close> for an exception node, and for a node with children the block
  \<open>(count:child,...,child)\<close>, the count in decimal.
\<close>

definition digit_char :: "nat \<Rightarrow> char" where
  "digit_char d = char_of (48 + d)"

function decimal :: "nat \<Rightarrow> string" where
  "decimal n = (if n < 10 then [digit_char n] else decimal (n div 10) @ [digit_char (n mod 10)])"
  by pat_completeness auto
termination
  by (relation "measure id") auto

declare decimal.simps [simp del]

fun join_commas :: "string list \<Rightarrow> string" where
  "join_commas [] = []"
| "join_commas [l] = l"
| "join_commas (l # l' # ls) = l @ '','' @ join_commas (l' # ls)"

fun encode :: "tldnode \<Rightarrow> string" where
  "encode (Tldnode d a cs) =
     d @ (if a then ''!'' else []) @
     (if cs = [] then []
      else ''('' @ decimal (length cs) @ '':'' @ join_commas (map encode cs) @ '')'')"

text \<open>
  The trees that have an encoding: no label holds a delimiter, the exception mark or
  NUL, and the number of children fits the \<open>int\<close> that \<^verbatim>\<open>atoi\<close> returns.
\<close>

definition label_ok :: "string \<Rightarrow> bool" where
  "label_ok d = (\<forall>c \<in> set d. c \<notin> {CHR '','', CHR ''('', CHR '')'', CHR ''!'', CHR 0x00})"

fun wf_node :: "tldnode \<Rightarrow> bool" where
  "wf_node (Tldnode d a cs) = (label_ok d \<and> length cs < 2 ^ 31 \<and> (\<forall>c \<in> set cs. wf_node c))"

subsection \<open>The split of the specification\<close>

text \<open>
  The split step as the specification words it: the host name is cut at every dot and
  empty labels are kept, so that \<open>n\<close> dots give \<open>n + 1\<close> labels, in the order of the
  text. It is compared with \<open>split_hostname\<close> below.
\<close>

fun split_dots_spec :: "string \<Rightarrow> string list" where
  "split_dots_spec [] = [[]]"
| "split_dots_spec (c # cs) =
     (if c = CHR ''.'' then [] # split_dots_spec cs
      else (case split_dots_spec cs of [] \<Rightarrow> [[c]] | l # ls \<Rightarrow> (c # l) # ls))"

text \<open>Labels put together again with one dot between neighbours.\<close>

fun join_dots :: "string list \<Rightarrow> string" where
  "join_dots [] = []"
| "join_dots [l] = l"
| "join_dots (l # l' # ls) = l @ ''.'' @ join_dots (l' # ls)"

text \<open>
  The host name without its empty labels: leading and trailing dots are gone and a run
  of dots is a single dot.
\<close>

definition remove_empty_labels :: "string \<Rightarrow> string" where
  "remove_empty_labels hostname =
     join_dots (filter (\<lambda>l. l \<noteq> []) (split_dots_spec hostname))"

subsection \<open>Example trees\<close>

text \<open>
  The tree of the rule text \<^verbatim>\<open>root(1:ck(1:*(1:www!)))\<close>: the top-level label \<open>ck\<close>,
  its wildcard child, and the exception child \<open>www\<close> below the wildcard.
\<close>

definition ck_tree :: tldnode where
  "ck_tree = Tldnode ''root'' False
     [Tldnode ''ck'' False [Tldnode ''*'' False [Tldnode ''www'' True []]]]"

text \<open>The same tree without the exception mark: \<^verbatim>\<open>root(1:ck(1:*(1:www)))\<close>.\<close>

definition ck_tree_plain :: tldnode where
  "ck_tree_plain = Tldnode ''root'' False
     [Tldnode ''ck'' False [Tldnode ''*'' False [Tldnode ''www'' False []]]]"

text \<open>The tree of \<^verbatim>\<open>root(1:com)\<close>: the single leaf \<open>com\<close>.\<close>

definition com_tree :: tldnode where
  "com_tree = Tldnode ''root'' False [Tldnode ''com'' False []]"




text \<open>A node with a wildcard child in front of an exact child, and one without wildcard.\<close>

definition wild_node :: tldnode where
  "wild_node = Tldnode ''uk'' False [Tldnode ''*'' False [], Tldnode ''example'' False []]"

definition plain_node :: tldnode where
  "plain_node = Tldnode ''de'' False [Tldnode ''example'' False []]"

section \<open>Properties of the matcher\<close>

subsection \<open>The one-level lookup as a search\<close>

lemma findTldNode_loop_find:
  "findTldNode_loop ns l acc =
     (case List.find (\<lambda>n. dom n = l) ns of
        Some n \<Rightarrow> Some n
      | None \<Rightarrow> (case acc of Some a \<Rightarrow> Some a | None \<Rightarrow> List.find (\<lambda>n. dom n = ALL_label) ns))"
  by (induction ns arbitrary: acc) (auto split: option.splits)

lemma findTldNode_find:
  "findTldNode parent l =
     (case List.find (\<lambda>n. dom n = l) (subnodes parent) of
        Some n \<Rightarrow> Some n
      | None \<Rightarrow> List.find (\<lambda>n. dom n = ALL_label) (subnodes parent))"
  by (simp add: findTldNode_def findTldNode_loop_find split: option.splits)

lemma findTldNode_None_iff:
  "findTldNode parent l = None \<longleftrightarrow>
     (\<forall>c \<in> set (subnodes parent). dom c \<noteq> l \<and> dom c \<noteq> ''*'')"
  by (auto simp: findTldNode_find ALL_label_def find_None_iff find_Some_iff split: option.splits)

lemma find_in_set:
  "\<exists>x \<in> set xs. P x \<Longrightarrow> \<exists>y \<in> set xs. List.find P xs = Some y \<and> P y"
  by (induction xs) auto

lemma find_distinct_dom:
  "distinct (map dom ns) \<Longrightarrow> c \<in> set ns \<Longrightarrow> List.find (\<lambda>n. dom n = dom c) ns = Some c"
  by (induction ns) auto

lemma findTldNode_distinct:
  "distinct (map dom (subnodes parent)) \<Longrightarrow> c \<in> set (subnodes parent) \<Longrightarrow>
   findTldNode parent (dom c) = Some c"
  by (simp add: findTldNode_find find_distinct_dom)

text \<open>
  Claim C6. For every node and label, \<open>findTldNode\<close> returns a child whose label is the
  queried one when there is such a child, also when a sibling \<open>*\<close> is present (and
  also when the wildcard comes first); otherwise it returns a child labelled \<open>*\<close> when
  there is one; otherwise it returns nothing.
\<close>

theorem findTldNode_exact_beats_wildcard:
  "((\<exists>c \<in> set (subnodes node). dom c = label) \<longrightarrow>
      (\<exists>c \<in> set (subnodes node). findTldNode node label = Some c \<and> dom c = label)) \<and>
   ((\<forall>c \<in> set (subnodes node). dom c \<noteq> label) \<and> (\<exists>c \<in> set (subnodes node). dom c = ''*'') \<longrightarrow>
      (\<exists>c \<in> set (subnodes node). findTldNode node label = Some c \<and> dom c = ''*'')) \<and>
   ((\<forall>c \<in> set (subnodes node). dom c \<noteq> label \<and> dom c \<noteq> ''*'') \<longrightarrow>
      findTldNode node label = None)"
proof (intro conjI impI)
  assume "\<exists>c \<in> set (subnodes node). dom c = label"
  then obtain y where "y \<in> set (subnodes node)"
    and "List.find (\<lambda>n. dom n = label) (subnodes node) = Some y" and "dom y = label"
    using find_in_set [of "subnodes node" "\<lambda>n. dom n = label"] by blast
  then show "\<exists>c \<in> set (subnodes node). findTldNode node label = Some c \<and> dom c = label"
    by (auto simp: findTldNode_find)
next
  assume a: "(\<forall>c \<in> set (subnodes node). dom c \<noteq> label) \<and>
             (\<exists>c \<in> set (subnodes node). dom c = ''*'')"
  then have n: "List.find (\<lambda>n. dom n = label) (subnodes node) = None"
    by (simp add: find_None_iff)
  from a obtain y where "y \<in> set (subnodes node)"
    and "List.find (\<lambda>n. dom n = ''*'') (subnodes node) = Some y" and "dom y = ''*''"
    using find_in_set [of "subnodes node" "\<lambda>n. dom n = ''*''"] by blast
  with n show "\<exists>c \<in> set (subnodes node). findTldNode node label = Some c \<and> dom c = ''*''"
    by (auto simp: findTldNode_find ALL_label_def)
next
  assume "\<forall>c \<in> set (subnodes node). dom c \<noteq> label \<and> dom c \<noteq> ''*''"
  then show "findTldNode node label = None"
    by (simp add: findTldNode_None_iff)
qed

theorem findTldNode_exact_beats_wildcard_witness:
  "findTldNode wild_node ''example'' = Some (Tldnode ''example'' False []) \<and>
   findTldNode wild_node ''other'' = Some (Tldnode ''*'' False []) \<and>
   findTldNode plain_node ''other'' = None"
proof -
  have e: "\<exists>c \<in> set (subnodes wild_node). dom c = ''example''"
    by (simp add: wild_node_def)
  have w: "(\<forall>c \<in> set (subnodes wild_node). dom c \<noteq> ''other'') \<and>
           (\<exists>c \<in> set (subnodes wild_node). dom c = ''*'')"
    by (simp add: wild_node_def)
  have p: "\<forall>c \<in> set (subnodes plain_node). dom c \<noteq> ''other'' \<and> dom c \<noteq> ''*''"
    by (simp add: plain_node_def)
  have "\<exists>c \<in> set (subnodes wild_node). findTldNode wild_node ''example'' = Some c \<and> dom c = ''example''"
    using findTldNode_exact_beats_wildcard [of wild_node "''example''"] e by blast
  then have 1: "findTldNode wild_node ''example'' = Some (Tldnode ''example'' False [])"
    by (auto simp: wild_node_def)
  have "\<exists>c \<in> set (subnodes wild_node). findTldNode wild_node ''other'' = Some c \<and> dom c = ''*''"
    using findTldNode_exact_beats_wildcard [of wild_node "''other''"] w by blast
  then have 2: "findTldNode wild_node ''other'' = Some (Tldnode ''*'' False [])"
    by (auto simp: wild_node_def)
  have 3: "findTldNode plain_node ''other'' = None"
    using findTldNode_exact_beats_wildcard [of plain_node "''other''"] p by blast
  from 1 2 3 show ?thesis by simp
qed

subsection \<open>Host names that are split by hand\<close>

lemma split_a_zzz: "split_hostname ''a.zzz'' = [''zzz'', ''a'']"
  by code_simp

lemma split_zzz: "split_hostname ''zzz'' = [''zzz'']"
  by code_simp




subsection \<open>The scenarios of the specification\<close>

lemma split_www_ck: "split_hostname ''www.ck'' = [''ck'', ''www'']"
  by code_simp

lemma split_foo_ck: "split_hostname ''foo.ck'' = [''ck'', ''foo'']"
  by code_simp

lemma split_a_foo_ck: "split_hostname ''a.foo.ck'' = [''ck'', ''foo'', ''a'']"
  by code_simp

lemma walk_ck_www: "findRegisteredDomain ck_tree ''ck'' [''www''] = Some ''www.ck''"
  by code_simp

lemma walk_ck_foo: "findRegisteredDomain ck_tree ''ck'' [''foo''] = Some ''foo.ck''"
  by code_simp

lemma walk_ck_a_foo: "findRegisteredDomain ck_tree ''ck'' [''foo'', ''a''] = Some ''foo.ck''"
  by code_simp

text \<open>
  Claim C1. The walk treats a matched child whose only child is an exception node as
  the registrable boundary: for every node, label and remaining labels, it then returns
  the current label alone. On the tree with the top-level label \<open>ck\<close>, its wildcard
  child \<open>*\<close> and the single exception child \<open>www\<close> of the wildcard (the tree that the
  parser builds from \<^verbatim>\<open>root(1:ck(1:*(1:www!)))\<close>), the walk itself returns \<open>www.ck\<close> for
  \<open>www.ck\<close>, \<open>foo.ck\<close> for \<open>foo.ck\<close> and \<open>foo.ck\<close> for \<open>a.foo.ck\<close>, and so do
  \<open>getRegisteredDomain\<close> and \<open>getRegisteredDomainDrop\<close> in every mode: none of the
  three is the fallback for an unknown top-level domain. Without the exception mark on
  \<open>www\<close> the results differ: \<open>www.ck\<close> has no registered domain and \<open>a.foo.ck\<close> is its own.
\<close>

theorem exception_short_circuit_ck:
  "(findTldNode subtree val = Some subNode \<and> num_children subNode = 1 \<and>
      attr (subnodes subNode ! 0) \<longrightarrow>
    findRegisteredDomain subtree val nxt = Some val) \<and>
   loadTldTree ''root(1:ck(1:*(1:www!)))'' = Inr ck_tree \<and>
   findRegisteredDomain ck_tree ''ck'' [''www''] = Some ''www.ck'' \<and>
   findRegisteredDomain ck_tree ''ck'' [''foo''] = Some ''foo.ck'' \<and>
   findRegisteredDomain ck_tree ''ck'' [''foo'', ''a''] = Some ''foo.ck'' \<and>
   getRegisteredDomain ''www.ck'' ck_tree = Some ''www.ck'' \<and>
   getRegisteredDomain ''foo.ck'' ck_tree = Some ''foo.ck'' \<and>
   getRegisteredDomain ''a.foo.ck'' ck_tree = Some ''foo.ck'' \<and>
   getRegisteredDomainDrop ''www.ck'' ck_tree drop_unknown = Some ''www.ck'' \<and>
   getRegisteredDomainDrop ''foo.ck'' ck_tree drop_unknown = Some ''foo.ck'' \<and>
   getRegisteredDomainDrop ''a.foo.ck'' ck_tree drop_unknown = Some ''foo.ck'' \<and>
   getRegisteredDomain ''www.ck'' ck_tree_plain = None \<and>
   getRegisteredDomain ''a.foo.ck'' ck_tree_plain = Some ''a.foo.ck''"
proof (intro conjI)
  show "findTldNode subtree val = Some subNode \<and> num_children subNode = 1 \<and>
          attr (subnodes subNode ! 0) \<longrightarrow>
        findRegisteredDomain subtree val nxt = Some val"
    by (simp add: findRegisteredDomain.simps [of subtree])
  show "loadTldTree ''root(1:ck(1:*(1:www!)))'' = Inr ck_tree"
    by code_simp
  show "findRegisteredDomain ck_tree ''ck'' [''www''] = Some ''www.ck''"
    by (rule walk_ck_www)
  show "findRegisteredDomain ck_tree ''ck'' [''foo''] = Some ''foo.ck''"
    by (rule walk_ck_foo)
  show "findRegisteredDomain ck_tree ''ck'' [''foo'', ''a''] = Some ''foo.ck''"
    by (rule walk_ck_a_foo)
  show "getRegisteredDomain ''www.ck'' ck_tree = Some ''www.ck''"
    by (simp add: getRegisteredDomain_def getRegisteredDomainDropI_def split_www_ck walk_ck_www)
  show "getRegisteredDomain ''foo.ck'' ck_tree = Some ''foo.ck''"
    by (simp add: getRegisteredDomain_def getRegisteredDomainDropI_def split_foo_ck walk_ck_foo)
  show "getRegisteredDomain ''a.foo.ck'' ck_tree = Some ''foo.ck''"
    by (simp add: getRegisteredDomain_def getRegisteredDomainDropI_def split_a_foo_ck
        walk_ck_a_foo)
  show "getRegisteredDomainDrop ''www.ck'' ck_tree drop_unknown = Some ''www.ck''"
    by (simp add: getRegisteredDomainDrop_def getRegisteredDomainDropI_def split_www_ck
        walk_ck_www)
  show "getRegisteredDomainDrop ''foo.ck'' ck_tree drop_unknown = Some ''foo.ck''"
    by (simp add: getRegisteredDomainDrop_def getRegisteredDomainDropI_def split_foo_ck
        walk_ck_foo)
  show "getRegisteredDomainDrop ''a.foo.ck'' ck_tree drop_unknown = Some ''foo.ck''"
    by (simp add: getRegisteredDomainDrop_def getRegisteredDomainDropI_def split_a_foo_ck
        walk_ck_a_foo)
  show "getRegisteredDomain ''www.ck'' ck_tree_plain = None"
    by code_simp
  show "getRegisteredDomain ''a.foo.ck'' ck_tree_plain = Some ''a.foo.ck''"
    by code_simp
qed

theorem exception_short_circuit_ck_witness:
  "findTldNode (Tldnode ''ck'' False [Tldnode ''*'' False [Tldnode ''www'' True []]]) ''www'' =
     Some (Tldnode ''*'' False [Tldnode ''www'' True []]) \<and>
   num_children (Tldnode ''*'' False [Tldnode ''www'' True []]) = 1 \<and>
   attr (subnodes (Tldnode ''*'' False [Tldnode ''www'' True []]) ! 0) \<and>
   findRegisteredDomain (Tldnode ''ck'' False [Tldnode ''*'' False [Tldnode ''www'' True []]])
     ''www'' [''a''] = Some ''www''"
proof -
  let ?star = "Tldnode ''*'' False [Tldnode ''www'' True []]"
  let ?ck = "Tldnode ''ck'' False [?star]"
  have h: "findTldNode ?ck ''www'' = Some ?star \<and> num_children ?star = 1 \<and>
           attr (subnodes ?star ! 0)"
    by code_simp
  have "findRegisteredDomain ?ck ''www'' [''a''] = Some ''www''"
    using exception_short_circuit_ck [of ?ck "''www''" ?star "[''a'']", THEN conjunct1] h
    by blast
  with h show ?thesis
    by blast
qed

text \<open>
  Claim C2. For every tree with no rule for the top-level label \<open>zzz\<close> (the lookup of
  \<open>zzz\<close> at the root finds nothing: by \<open>findTldNode_None_iff\<close>, no child of the root
  is labelled \<open>zzz\<close> or \<open>*\<close>), \<open>getRegisteredDomain\<close> returns the two-label fallback
  \<open>a.zzz\<close> for \<open>a.zzz\<close>, \<open>getRegisteredDomainDrop\<close> with a true \<open>drop_unknown\<close> returns
  nothing for it, and the single label \<open>zzz\<close> yields nothing in both modes.
\<close>

theorem unknown_tld_fallback:
  assumes "findTldNode tree ''zzz'' = None"
  shows "getRegisteredDomain ''a.zzz'' tree = Some ''a.zzz'' \<and>
         (drop_unknown \<noteq> 0 \<longrightarrow> getRegisteredDomainDrop ''a.zzz'' tree drop_unknown = None) \<and>
         getRegisteredDomain ''zzz'' tree = None \<and>
         getRegisteredDomainDrop ''zzz'' tree drop_unknown = None"
  using assms
  by (simp add: getRegisteredDomain_def getRegisteredDomainDrop_def
        getRegisteredDomainDropI_def split_a_zzz split_zzz concatDomLabel_def
        findRegisteredDomain.simps [of tree])

theorem unknown_tld_fallback_witness:
  "findTldNode com_tree ''zzz'' = None \<and>
   getRegisteredDomain ''a.zzz'' com_tree = Some ''a.zzz'' \<and>
   getRegisteredDomainDrop ''a.zzz'' com_tree 1 = None \<and>
   getRegisteredDomain ''zzz'' com_tree = None \<and>
   getRegisteredDomainDrop ''zzz'' com_tree 1 = None"
proof -
  have h: "findTldNode com_tree ''zzz'' = None"
    by code_simp
  show ?thesis
    using h unknown_tld_fallback [OF h, of 1] by simp
qed




subsection \<open>The recursive step\<close>

text \<open>
  Claim C5, as the specification states it: when the recursive call on the matched
  child and the remaining labels returns a string \<open>deeper\<close>, the walk returns the
  current label, a dot and \<open>deeper\<close>, in that order. The code puts them the other way
  round: on the tree with the leaf \<open>com\<close> and the labels \<open>com\<close>, \<open>example\<close> the
  recursive call returns \<open>example\<close> and the walk returns \<open>example.com\<close>, not
  \<open>com.example\<close>.
\<close>

theorem findRegisteredDomain_order_counterexample:
  "findTldNode com_tree ''com'' = Some (Tldnode ''com'' False []) \<and>
   \<not> (num_children (Tldnode ''com'' False []) = 1 \<and>
      attr (subnodes (Tldnode ''com'' False []) ! 0)) \<and>
   findRegisteredDomain (Tldnode ''com'' False []) ''example'' [] = Some ''example'' \<and>
   findRegisteredDomain com_tree ''com'' [''example''] = Some ''example.com'' \<and>
   findRegisteredDomain com_tree ''com'' [''example''] \<noteq> Some (''com'' @ ''.'' @ ''example'')"
  by code_simp

text \<open>
  Claim C5, amended. In the recursive step (the label has a matched child that is not
  an exception boundary, and a further label remains), when the recursive call on the
  matched child and the remaining labels returns a string \<open>deeper\<close>, the walk returns
  \<open>deeper\<close>, a dot and the current label, in that order; when the recursive call
  returns nothing, so does the walk.
\<close>

theorem findRegisteredDomain_step:
  assumes "findTldNode subtree val = Some subNode"
    and "\<not> (num_children subNode = 1 \<and> attr (subnodes subNode ! 0))"
  shows "findRegisteredDomain subtree val (val' # nxt') =
           (case findRegisteredDomain subNode val' nxt' of
              None \<Rightarrow> None
            | Some deeper \<Rightarrow> Some (deeper @ ''.'' @ val))"
  using assms
  by (auto simp: concatDomLabel_def findRegisteredDomain.simps [of subtree] split: option.splits)

theorem findRegisteredDomain_step_witness:
  "findTldNode com_tree ''com'' = Some (Tldnode ''com'' False []) \<and>
   findRegisteredDomain (Tldnode ''com'' False []) ''example'' [''www''] = Some ''example'' \<and>
   findRegisteredDomain com_tree ''com'' [''example'', ''www''] = Some ''example.com''"
proof -
  have f: "findTldNode com_tree ''com'' = Some (Tldnode ''com'' False [])"
    by code_simp
  have b: "\<not> (num_children (Tldnode ''com'' False []) = 1 \<and>
              attr (subnodes (Tldnode ''com'' False []) ! 0))"
    by (simp add: num_children_def)
  have d: "findRegisteredDomain (Tldnode ''com'' False []) ''example'' [''www''] = Some ''example''"
    by code_simp
  show ?thesis
    using f d findRegisteredDomain_step [OF f b, of "''example''" "[''www'']"] by simp
qed

subsection \<open>The result has two labels\<close>

text \<open>
  Claim C9. For every host name, tree and mode, a string that \<open>getRegisteredDomainDrop\<close>
  returns contains a dot: a result of one label is replaced by nothing or by the
  two-label fallback.
\<close>

theorem getRegisteredDomainDrop_has_dot:
  "getRegisteredDomainDrop hostname tree drop_unknown = Some r \<Longrightarrow> CHR ''.'' \<in> set r"
  by (auto simp: getRegisteredDomainDrop_def getRegisteredDomainDropI_def concatDomLabel_def
      split: list.splits option.splits if_splits)

theorem getRegisteredDomainDrop_has_dot_witness:
  "getRegisteredDomainDrop ''www.example.com'' com_tree 1 = Some ''example.com'' \<and>
   CHR ''.'' \<in> set ''example.com''"
proof -
  have h: "getRegisteredDomainDrop ''www.example.com'' com_tree 1 = Some ''example.com''"
    by code_simp
  show ?thesis
    using h getRegisteredDomainDrop_has_dot [OF h] by simp
qed

subsection \<open>The split step\<close>

lemma split_dots_spec_dots:
  "set ds \<subseteq> {CHR ''.''} \<Longrightarrow>
   filter (\<lambda>l. l \<noteq> []) (split_dots_spec (ds @ s)) = filter (\<lambda>l. l \<noteq> []) (split_dots_spec s)"
  by (induction ds) auto

lemma split_dots_spec_label:
  "CHR ''.'' \<notin> set t \<Longrightarrow> split_dots_spec (t @ CHR ''.'' # r) = t # split_dots_spec r"
  by (induction t) auto

lemma split_dots_spec_last:
  "CHR ''.'' \<notin> set t \<Longrightarrow> split_dots_spec t = [t]"
  by (induction t) auto

lemma split_dots_spec_dotfree:
  "l \<in> set (split_dots_spec s) \<Longrightarrow> CHR ''.'' \<notin> set l"
  by (induction s arbitrary: l) (auto split: if_splits list.splits)

lemma strtok_r_None:
  assumes "strtok_r s ''.'' = None"
  shows "filter (\<lambda>l. l \<noteq> []) (split_dots_spec s) = []"
proof -
  have "dropWhile (\<lambda>c. c \<in> set ''.'') s = []"
    using assms unfolding strtok_r_def Let_def by (simp split: if_splits)
  then have "set s \<subseteq> {CHR ''.''}"
    by (auto simp: dropWhile_eq_Nil_conv)
  then show ?thesis
    using split_dots_spec_dots [of s "[]"] by simp
qed

lemma strtok_r_Some:
  assumes "strtok_r s ''.'' = Some (token, rest)"
  shows "filter (\<lambda>l. l \<noteq> []) (split_dots_spec s) =
           token # filter (\<lambda>l. l \<noteq> []) (split_dots_spec rest)"
proof -
  define ds where "ds = takeWhile (\<lambda>c. c \<in> set ''.'') s"
  define s1 where "s1 = dropWhile (\<lambda>c. c \<in> set ''.'') s"
  define s2 where "s2 = dropWhile (\<lambda>c. c \<notin> set ''.'') s1"
  have ne: "s1 \<noteq> []"
    using assms unfolding strtok_r_def Let_def s1_def by (metis option.distinct(1))
  have tok: "token = takeWhile (\<lambda>c. c \<notin> set ''.'') s1" and r: "rest = drop 1 s2"
    using assms ne unfolding strtok_r_def Let_def s1_def s2_def by (auto split: if_splits)
  have s: "s = ds @ s1"
    unfolding ds_def s1_def by simp
  have dots: "set ds \<subseteq> {CHR ''.''}"
    unfolding ds_def by (auto dest: set_takeWhileD)
  have s1: "s1 = token @ s2"
    unfolding tok s2_def by simp
  have tokfree: "CHR ''.'' \<notin> set token"
    unfolding tok by (auto dest: set_takeWhileD)
  have "hd s1 \<notin> set ''.''"
    using ne hd_dropWhile [of "\<lambda>c. c \<in> set ''.''" s] unfolding s1_def by blast
  then have tokne: "token \<noteq> []"
    using ne unfolding tok by (cases s1) auto
  have "filter (\<lambda>l. l \<noteq> []) (split_dots_spec s1) =
          token # filter (\<lambda>l. l \<noteq> []) (split_dots_spec rest)"
  proof (cases s2)
    case Nil
    then show ?thesis
      using s1 r tokfree tokne by (simp add: split_dots_spec_last)
  next
    case (Cons d s2')
    have "hd s2 \<in> set ''.''"
      using Cons hd_dropWhile [of "\<lambda>c. c \<notin> set ''.''" s1] unfolding s2_def by auto
    then have "d = CHR ''.''"
      using Cons by simp
    then show ?thesis
      using s1 r Cons tokfree tokne by (simp add: split_dots_spec_label)
  qed
  then show ?thesis
    unfolding s using split_dots_spec_dots [OF dots, of s1] by simp
qed

lemma split_loop_spec:
  "split_loop s head = rev (filter (\<lambda>l. l \<noteq> []) (split_dots_spec s)) @ head"
proof (induction s head rule: split_loop.induct)
  case (1 s head)
  show ?case
  proof (cases "strtok_r s ''.''")
    case None
    then show ?thesis
      using strtok_r_None [OF None] by (subst split_loop.simps) simp
  next
    case (Some p)
    obtain token rest where p: "p = (token, rest)"
      by (cases p)
    have t: "strtok_r s ''.'' = Some (token, rest)"
      using Some p by simp
    have "split_loop rest (token # head) =
            rev (filter (\<lambda>l. l \<noteq> []) (split_dots_spec rest)) @ token # head"
      using "1.IH" [OF Some p [symmetric]] .
    then show ?thesis
      using strtok_r_Some [OF t] t by (subst split_loop.simps) simp
  qed
qed

lemma split_hostname_spec:
  "split_hostname hostname = rev (filter (\<lambda>l. l \<noteq> []) (split_dots_spec hostname))"
  by (simp add: split_hostname_def split_loop_spec)

lemma split_join_dots:
  "\<forall>l \<in> set ls. l \<noteq> [] \<and> CHR ''.'' \<notin> set l \<Longrightarrow>
   filter (\<lambda>l. l \<noteq> []) (split_dots_spec (join_dots ls)) = ls"
  by (induction ls rule: join_dots.induct)
     (simp_all add: split_dots_spec_last split_dots_spec_label)

lemma split_hostname_remove_empty_labels:
  "split_hostname (remove_empty_labels hostname) = split_hostname hostname"
proof -
  have "\<forall>l \<in> set (filter (\<lambda>l. l \<noteq> []) (split_dots_spec hostname)). l \<noteq> [] \<and> CHR ''.'' \<notin> set l"
    by (auto dest: split_dots_spec_dotfree)
  then show ?thesis
    by (simp add: split_hostname_spec remove_empty_labels_def split_join_dots)
qed

lemma split_hostname_dots:
  "set hostname \<subseteq> {CHR ''.''} \<Longrightarrow> split_hostname hostname = []"
  using split_dots_spec_dots [of hostname "[]"] by (simp add: split_hostname_spec)

text \<open>
  Claim C4, as the specification states it: the split step cuts the host name at every
  dot, keeps empty labels as empty strings, and reverses the list. The code takes its
  labels from \<^verbatim>\<open>strtok_r\<close>, which never returns an empty token: for \<open>a..b\<close> the
  specification's list is \<open>b\<close>, the empty label, \<open>a\<close>, and the code's list is \<open>b\<close>, \<open>a\<close>.
\<close>

theorem split_hostname_keeps_empty_counterexample:
  "split_hostname ''a..b'' = [''b'', ''a''] \<and>
   rev (split_dots_spec ''a..b'') = [''b'', [], ''a''] \<and>
   split_hostname ''a..b'' \<noteq> rev (split_dots_spec ''a..b'')"
  by code_simp

text \<open>
  Claim C4, amended. For every host name the split step cuts at the dots, drops the
  empty labels (leading, trailing and consecutive dots give no label), and produces
  the remaining labels reversed: the top-level domain first, the most specific label
  last.
\<close>

theorem split_hostname_drops_empty_labels:
  "split_hostname hostname = rev (filter (\<lambda>l. l \<noteq> []) (split_dots_spec hostname))"
  by (simp add: split_hostname_def split_loop_spec)

subsection \<open>Empty labels do not matter\<close>

text \<open>
  Claim C10. For every host name, tree and mode, \<open>getRegisteredDomainDrop\<close> returns the
  same on the host name and on the host name without its empty labels; a host name that
  is empty or made of dots only yields nothing, in both modes.
\<close>

theorem getRegisteredDomainDrop_empty_labels:
  "getRegisteredDomainDrop hostname tree drop_unknown =
     getRegisteredDomainDrop (remove_empty_labels hostname) tree drop_unknown \<and>
   (set hostname \<subseteq> {CHR ''.''} \<longrightarrow>
      getRegisteredDomainDrop hostname tree drop_unknown = None)"
  by (simp add: getRegisteredDomainDrop_def getRegisteredDomainDropI_def
      split_hostname_remove_empty_labels split_hostname_dots)

theorem getRegisteredDomainDrop_empty_labels_witness:
  "remove_empty_labels ''..www..example.com.'' = ''www.example.com'' \<and>
   getRegisteredDomainDrop ''..www..example.com.'' com_tree 0 =
     getRegisteredDomainDrop ''www.example.com'' com_tree 0 \<and>
   getRegisteredDomainDrop ''www.example.com'' com_tree 0 = Some ''example.com'' \<and>
   set ''...'' \<subseteq> {CHR ''.''} \<and>
   getRegisteredDomainDrop ''...'' com_tree 0 = None \<and>
   getRegisteredDomainDrop [] com_tree 1 = None"
proof -
  have r: "remove_empty_labels ''..www..example.com.'' = ''www.example.com''"
    by code_simp
  have v: "getRegisteredDomainDrop ''www.example.com'' com_tree 0 = Some ''example.com''"
    by code_simp
  have 1: "getRegisteredDomainDrop ''..www..example.com.'' com_tree 0 =
             getRegisteredDomainDrop ''www.example.com'' com_tree 0"
    using getRegisteredDomainDrop_empty_labels [of "''..www..example.com.''" com_tree 0,
        THEN conjunct1] r
    by simp
  have 2: "getRegisteredDomainDrop ''...'' com_tree 0 = None"
    using getRegisteredDomainDrop_empty_labels [of "''...''" com_tree 0, THEN conjunct2]
    by simp
  have 3: "getRegisteredDomainDrop [] com_tree 1 = None"
    using getRegisteredDomainDrop_empty_labels [of "[]" com_tree 1, THEN conjunct2]
    by simp
  show ?thesis
    using r v 1 2 3 by simp
qed

section \<open>Properties of the parser\<close>

subsection \<open>Decimal numbers and \<^verbatim>\<open>atoi\<close>\<close>

lemma char_at_append [simp]: "char_at (xs @ c # ys) (length xs) = Inr c"
  by (simp add: char_at_def)

lemma digit_char_code: "d < 10 \<Longrightarrow> (of_char (digit_char d) :: nat) = 48 + d"
  by (simp add: digit_char_def)

lemma isdigit_digit_char: "d < 10 \<Longrightarrow> isdigit (digit_char d)"
  by (simp add: isdigit_def digit_char_code)

lemma decimal_digits: "c \<in> set (decimal n) \<Longrightarrow> isdigit c"
proof (induction n arbitrary: c rule: decimal.induct)
  case (1 n)
  show ?case
  proof (cases "n < 10")
    case True
    with "1.prems" show ?thesis
      by (subst (asm) decimal.simps) (simp add: isdigit_digit_char)
  next
    case False
    with "1.prems" have "c \<in> set (decimal (n div 10)) \<or> c = digit_char (n mod 10)"
      by (subst (asm) decimal.simps) auto
    then show ?thesis
      using "1.IH" [OF False] by (auto simp: isdigit_digit_char)
  qed
qed

lemma decimal_nonempty: "decimal n \<noteq> []"
  by (subst decimal.simps) simp

lemma atoi_digits_append:
  "\<forall>c \<in> set ds. isdigit c \<Longrightarrow> atoi_digits acc (ds @ r) = atoi_digits (atoi_digits acc ds) r"
  by (induction ds arbitrary: acc) auto

lemma atoi_digits_decimal: "atoi_digits 0 (decimal n) = int n"
proof (induction n rule: decimal.induct)
  case (1 n)
  show ?case
  proof (cases "n < 10")
    case True
    then show ?thesis
      by (subst decimal.simps) (simp add: isdigit_digit_char digit_char_code)
  next
    case False
    have d: "\<forall>c \<in> set (decimal (n div 10)). isdigit c"
      by (simp add: decimal_digits)
    have m: "n mod 10 < 10"
      by simp
    have "atoi_digits 0 (decimal (n div 10) @ [digit_char (n mod 10)]) =
            int (n div 10) * 10 + int (n mod 10)"
      using "1.IH" [OF False] isdigit_digit_char [OF m] digit_char_code [OF m]
      by (simp add: atoi_digits_append [OF d])
    also have "\<dots> = int n"
      by (simp add: zmod_int zdiv_int)
    finally show ?thesis
      using False by (subst decimal.simps) simp
  qed
qed

lemma isdigit_not_space: "isdigit c \<Longrightarrow> \<not> isspace c"
  by (auto simp: isdigit_def isspace_def)

lemma isdigit_not_sign: "isdigit c \<Longrightarrow> c \<noteq> CHR ''-'' \<and> c \<noteq> CHR ''+''"
  by (auto simp: isdigit_def)

lemma atoi_decimal: "atoi (decimal n) = int n"
proof -
  obtain c cs where e: "decimal n = c # cs"
    using decimal_nonempty [of n] by (cases "decimal n") auto
  then have "isdigit c"
    using decimal_digits [of c n] by simp
  then have "\<not> isspace c" and "c \<noteq> CHR ''-''" and "c \<noteq> CHR ''+''"
    using isdigit_not_space isdigit_not_sign by auto
  then have "atoi (c # cs) = atoi_digits 0 (c # cs)"
    by (simp add: atoi_def)
  then show ?thesis
    using atoi_digits_decimal [of n] e by simp
qed

lemma decimal_no_colon: "c \<in> set (decimal n) \<Longrightarrow> c \<noteq> CHR '':''"
  using decimal_digits [of c n] by (auto simp: isdigit_def)

subsection \<open>Scanning a label and a count\<close>

lemma loop_label:
  assumes "\<forall>x \<in> set d1. x \<noteq> CHR '','' \<and> x \<noteq> CHR '')'' \<and> x \<noteq> CHR ''(''"
    and "s = p @ d1 @ c # rest" and "len = length s"
  shows "readTldString_loop s len None a start 0 (length p) =
         readTldString_loop s len None (a \<or> CHR ''!'' \<in> set d1) start 0 (length p + length d1)"
  using assms
proof (induction d1 arbitrary: p a)
  case Nil
  then show ?case by simp
next
  case (Cons x d1)
  have s: "s = (p @ [x]) @ d1 @ c # rest"
    using Cons.prems(2) by simp
  have x: "x \<noteq> CHR '',''" "x \<noteq> CHR '')''" "x \<noteq> CHR ''(''"
    using Cons.prems(1) by auto
  have cx: "char_at s (length p) = Inr x"
    using Cons.prems(2) by simp
  have l: "length p + 1 < len"
    using Cons.prems(2,3) by simp
  have "readTldString_loop s len None a start 0 (length p) =
          readTldString_loop s len None (a \<or> x = CHR ''!'') start 0 (length p + 1)"
    using cx x l by (subst readTldString_loop.simps) simp
  also have "\<dots> = readTldString_loop s len None ((a \<or> x = CHR ''!'') \<or> CHR ''!'' \<in> set d1)
                      start 0 (length (p @ [x]) + length d1)"
    using Cons.IH [of "p @ [x]" "a \<or> x = CHR ''!''"] Cons.prems(1) s Cons.prems(3) by simp
  finally show ?case
    by (simp add: disj_ac eq_commute)
qed

lemma loop_count:
  assumes "\<forall>x \<in> set ds. x \<noteq> CHR '':''"
    and "s = p @ ds @ c # rest" and "len = length s"
  shows "readTldString_loop s len dm a start (Suc 0) (length p) =
         readTldString_loop s len dm a start (Suc 0) (length p + length ds)"
  using assms
proof (induction ds arbitrary: p)
  case Nil
  then show ?case by simp
next
  case (Cons x ds)
  have s: "s = (p @ [x]) @ ds @ c # rest"
    using Cons.prems(2) by simp
  have x: "x \<noteq> CHR '':''"
    using Cons.prems(1) by auto
  have cx: "char_at s (length p) = Inr x"
    using Cons.prems(2) by simp
  have l: "length p + 1 < len"
    using Cons.prems(2,3) by simp
  have "readTldString_loop s len dm a start (Suc 0) (length p) =
          readTldString_loop s len dm a start (Suc 0) (length p + 1)"
    using cx x l by (subst readTldString_loop.simps) simp
  also have "\<dots> = readTldString_loop s len dm a start (Suc 0) (length (p @ [x]) + length ds)"
    using Cons.IH [of "p @ [x]"] Cons.prems(1) s Cons.prems(3) by simp
  finally show ?case
    by simp
qed

lemma loop_at_leaf_end:
  assumes "s = p @ l @ c # rest" and "c = CHR '','' \<or> c = CHR '')''"
    and "lenc = (if a then length l - 1 else length l)"
  shows "readTldString_loop s len None a (length p) 0 (length p + length l) =
           Inr (Tldnode (take lenc l) a [], length p + length l)"
proof -
  have c: "char_at s (length p + length l) = Inr c"
    using assms(1) char_at_append [of "p @ l" c rest] by simp
  have d: "take lenc (drop (length p) s) = take lenc l"
    using assms(1,3) by simp
  show ?thesis
    using assms(2,3) c d by (subst readTldString_loop.simps) (auto simp: Let_def)
qed

lemma loop_at_open:
  assumes "s = p @ l @ CHR ''('' # x # rest"
    and "lenc = (if a then length l - 1 else length l)" and "len = length s"
  shows "readTldString_loop s len None a (length p) 0 (length p + length l) =
           readTldString_loop s len (Some (take lenc l)) a (length p + length l) (Suc 0)
             (length p + length l + 1)"
proof -
  have c: "char_at s (length p + length l) = Inr (CHR ''('')"
    using assms(1) char_at_append [of "p @ l" "CHR ''(''" "x # rest"] by simp
  have d: "take lenc (drop (length p) s) = take lenc l"
    using assms(1,2) by simp
  have l: "length p + length l + 1 < len"
    using assms(1,3) by simp
  show ?thesis
    using assms(2) c d l by (subst readTldString_loop.simps) (auto simp: Let_def)
qed

lemma loop_at_colon:
  assumes "s = p @ CHR ''('' # ds @ CHR '':'' # rest"
    and "n = nat (atoi ds mod 2 ^ 32)"
    and "readTldString_children s len n (length p + 1 + length ds) = Inr (subs, pos')"
  shows "readTldString_loop s len (Some d) a (length p) (Suc 0) (length p + 1 + length ds) =
           Inr (Tldnode d a subs, pos' + 1)"
proof -
  have c: "char_at s (length p + 1 + length ds) = Inr (CHR '':'')"
    using assms(1) char_at_append [of "p @ CHR ''('' # ds" "CHR '':''" rest] by simp
  have b: "take (length ds) (drop (length p + 1) s) = ds"
    using assms(1) by simp
  show ?thesis
    using assms(2,3) c b
    by (subst readTldString_loop.simps) (simp add: Let_def return_node_def)
qed

subsection \<open>Reading back an encoded tree\<close>

lemma children_encode:
  assumes "\<And>c s p rest. c \<in> set (c0 # cs) \<Longrightarrow> s = p @ encode c @ rest \<Longrightarrow> rest \<noteq> [] \<Longrightarrow>
             hd rest = CHR '','' \<or> hd rest = CHR '')'' \<Longrightarrow>
             readTldString s (length s) (length p) = Inr (c, length p + length (encode c))"
    and "s = p @ sep # join_commas (map encode (c0 # cs)) @ CHR '')'' # rest"
  shows "readTldString_children s (length s) (Suc (length cs)) (length p) =
           Inr (c0 # cs, length p + 1 + length (join_commas (map encode (c0 # cs))))"
  using assms
proof (induction cs arbitrary: c0 p sep)
  case Nil
  have s: "s = (p @ [sep]) @ encode c0 @ (CHR '')'' # rest)"
    using Nil.prems(2) by simp
  have "readTldString s (length s) (length (p @ [sep])) =
          Inr (c0, length (p @ [sep]) + length (encode c0))"
    by (rule Nil.prems(1) [OF _ s]) simp_all
  then show ?case
    by simp
next
  case (Cons c1 cs)
  have s: "s = (p @ [sep]) @ encode c0 @ (CHR '','' # join_commas (map encode (c1 # cs)) @ CHR '')'' # rest)"
    using Cons.prems(2) by simp
  have r0: "readTldString s (length s) (length (p @ [sep])) =
          Inr (c0, length (p @ [sep]) + length (encode c0))"
    by (rule Cons.prems(1) [OF _ s]) simp_all
  have s': "s = (p @ sep # encode c0) @ CHR '','' # join_commas (map encode (c1 # cs)) @ CHR '')'' # rest"
    using Cons.prems(2) by simp
  have r1: "readTldString_children s (length s) (Suc (length cs)) (length (p @ sep # encode c0)) =
          Inr (c1 # cs, length (p @ sep # encode c0) + 1 + length (join_commas (map encode (c1 # cs))))"
  proof (rule Cons.IH [OF _ s'])
    fix c s p rest
    assume "c \<in> set (c1 # cs)" and "s = p @ encode c @ rest" and "rest \<noteq> []"
      and "hd rest = CHR '','' \<or> hd rest = CHR '')''"
    then show "readTldString s (length s) (length p) = Inr (c, length p + length (encode c))"
      using Cons.prems(1) [of c s p rest] by simp
  qed
  show ?case
    using r0 r1 by simp
qed

lemma read_encode:
  assumes "wf_node t" and "s = p @ encode t @ rest"
    and "subnodes t = [] \<longrightarrow> rest \<noteq> [] \<and> (hd rest = CHR '','' \<or> hd rest = CHR '')'')"
  shows "readTldString s (length s) (length p) = Inr (t, length p + length (encode t))"
  using assms
proof (induction t arbitrary: s p rest)
  case (Tldnode d a cs)
  define ex :: string where "ex = (if a then ''!'' else [])"
  define l where "l = d @ ex"
  define lenc where "lenc = (if a then length l - 1 else length l)"
  have lab: "label_ok d"
    using Tldnode.prems(1) by simp
  have nodelim: "\<forall>x \<in> set l. x \<noteq> CHR '','' \<and> x \<noteq> CHR '')'' \<and> x \<noteq> CHR ''(''"
    using lab unfolding l_def ex_def label_ok_def by auto
  have excl: "(False \<or> CHR ''!'' \<in> set l) = a"
    using lab unfolding l_def ex_def label_ok_def by auto
  have dm: "take lenc l = d"
    unfolding lenc_def l_def ex_def by simp
  have start: "readTldString s (length s) (length p) =
                 readTldString_loop s (length s) None False (length p) 0 (length p)"
    by simp
  show ?case
  proof (cases cs)
    case Nil
    then obtain c rest' where rest: "rest = c # rest'" and c: "c = CHR '','' \<or> c = CHR '')''"
      using Tldnode.prems(3) by (cases rest) auto
    have s: "s = p @ l @ c # rest'"
      using Tldnode.prems(2) Nil rest unfolding l_def ex_def by simp
    have e: "length (encode (Tldnode d a cs)) = length l"
      using Nil unfolding l_def ex_def by simp
    have "readTldString_loop s (length s) None False (length p) 0 (length p) =
            readTldString_loop s (length s) None a (length p) 0 (length p + length l)"
      using loop_label [OF nodelim s refl, of False "length p"] excl by simp
    also have "\<dots> = Inr (Tldnode (take lenc l) a [], length p + length l)"
      by (rule loop_at_leaf_end [OF s c lenc_def])
    finally show ?thesis
      using start dm e Nil by simp
  next
    case (Cons c0 cs')
    define n where "n = length cs"
    define body where "body = join_commas (map encode cs)"
    have n31: "n < 2 ^ 31"
      using Tldnode.prems(1) unfolding n_def by simp
    have s: "s = p @ l @ CHR ''('' # (decimal n @ CHR '':'' # body @ CHR '')'' # rest)"
      using Tldnode.prems(2) Cons unfolding l_def ex_def n_def body_def by simp
    obtain x xs where dec: "decimal n = x # xs"
      using decimal_nonempty [of n] by (cases "decimal n") auto
    have s1: "s = p @ l @ CHR ''('' # x # (xs @ CHR '':'' # body @ CHR '')'' # rest)"
      using s dec by simp
    have s2: "s = (p @ l @ ''('') @ decimal n @ CHR '':'' # (body @ CHR '')'' # rest)"
      using s by simp
    have s3: "s = (p @ l) @ CHR ''('' # decimal n @ CHR '':'' # (body @ CHR '')'' # rest)"
      using s by simp
    have s4: "s = (p @ l @ ''('' @ decimal n) @ CHR '':'' # join_commas (map encode (c0 # cs')) @ CHR '')'' # rest"
      using s Cons unfolding body_def by simp
    have e: "length (encode (Tldnode d a cs)) = length l + 1 + length (decimal n) + 1 + length body + 1"
      using Cons unfolding l_def ex_def n_def body_def by simp
    have nocolon: "\<forall>x \<in> set (decimal n). x \<noteq> CHR '':''"
      using decimal_no_colon by blast
    have cnt: "n = nat (atoi (decimal n) mod 2 ^ 32)"
      using n31 by (simp add: atoi_decimal)
    have kids: "readTldString_children s (length s) (Suc (length cs')) (length (p @ l @ ''('' @ decimal n)) =
                  Inr (c0 # cs', length (p @ l @ ''('' @ decimal n) + 1 + length (join_commas (map encode (c0 # cs'))))"
    proof (rule children_encode [OF _ s4])
      fix c s p rest
      assume c: "c \<in> set (c0 # cs')" and s: "s = p @ encode c @ rest" and r: "rest \<noteq> []"
        and h: "hd rest = CHR '','' \<or> hd rest = CHR '')''"
      have m: "c \<in> set cs"
        using c Cons by simp
      have w: "wf_node c"
        using Tldnode.prems(1) m by simp
      show "readTldString s (length s) (length p) = Inr (c, length p + length (encode c))"
        using Tldnode.IH [OF m w s] r h by simp
    qed
    have kids': "readTldString_children s (length s) n (length (p @ l) + 1 + length (decimal n)) =
                  Inr (cs, length p + length l + 1 + length (decimal n) + 1 + length body)"
      using kids Cons unfolding n_def body_def by (simp add: add_ac)
    have "readTldString_loop s (length s) None False (length p) 0 (length p) =
            readTldString_loop s (length s) None a (length p) 0 (length p + length l)"
      using loop_label [OF nodelim s refl, of False "length p"] excl by simp
    also have "\<dots> = readTldString_loop s (length s) (Some (take lenc l)) a (length p + length l) (Suc 0)
                        (length p + length l + 1)"
      by (rule loop_at_open [OF s1 lenc_def refl])
    also have "\<dots> = readTldString_loop s (length s) (Some d) a (length (p @ l)) (Suc 0)
                        (length (p @ l @ ''('') + length (decimal n))"
      using loop_count [OF nocolon s2 refl, of "Some d" a "length (p @ l)"] dm by simp
    also have "\<dots> = readTldString_loop s (length s) (Some d) a (length (p @ l)) (Suc 0)
                        (length (p @ l) + 1 + length (decimal n))"
      by simp
    also have "\<dots> = Inr (Tldnode d a cs, length p + length l + 1 + length (decimal n) + 1 + length body + 1)"
      by (rule loop_at_colon [OF s3 cnt kids'])
    finally show ?thesis
      using start e by simp
  qed
qed

text \<open>
  Claim C7. For every well-formed encoded rule text, one call of \<open>readTldString\<close> at
  the first character of a node consumes exactly that node (its label, the mark \<open>!\<close> if
  there is one, and the child block if there is one) and returns the position right
  behind it: for a node with a child block the position immediately after its closing
  parenthesis, for a leaf the position of the \<open>,\<close> or \<open>)\<close> that follows its text. The
  node that the call fills in is the encoded one.
\<close>

theorem readTldString_consumes_node:
  assumes "wf_node t"
    and "subnodes t = [] \<longrightarrow> rest \<noteq> [] \<and> (hd rest = CHR '','' \<or> hd rest = CHR '')'')"
  shows "readTldString (pre @ encode t @ rest) (length (pre @ encode t @ rest)) (length pre) =
           Inr (t, length pre + length (encode t)) \<and>
         (subnodes t \<noteq> [] \<longrightarrow> last (encode t) = CHR '')'')"
proof
  show "readTldString (pre @ encode t @ rest) (length (pre @ encode t @ rest)) (length pre) =
          Inr (t, length pre + length (encode t))"
    by (rule read_encode [OF assms(1) refl assms(2)])
  show "subnodes t \<noteq> [] \<longrightarrow> last (encode t) = CHR '')''"
    by (cases t) simp
qed

theorem readTldString_consumes_node_witness:
  "wf_node ck_tree \<and> subnodes ck_tree \<noteq> [] \<and>
   encode ck_tree = ''root(1:ck(1:*(1:www!)))'' \<and>
   readTldString ''root(1:ck(1:*(1:www!)))'' 23 0 = Inr (ck_tree, 23) \<and>
   wf_node (Tldnode ''com'' False []) \<and>
   readTldString ''root(2:com,net)'' 15 7 = Inr (Tldnode ''com'' False [], 10)"
proof -
  have w: "wf_node ck_tree"
    by (simp add: ck_tree_def label_ok_def)
  have k: "subnodes ck_tree \<noteq> []"
    by (simp add: ck_tree_def)
  have r: "subnodes ck_tree = [] \<longrightarrow> [] \<noteq> [] \<and> (hd [] = CHR '','' \<or> hd [] = CHR '')'')"
    using k by simp
  have e: "encode ck_tree = ''root(1:ck(1:*(1:www!)))''"
    by code_simp
  have L: "length ''root(1:ck(1:*(1:www!)))'' = 23"
    by simp
  have "readTldString ([] @ encode ck_tree @ []) (length ([] @ encode ck_tree @ []))
          (length ([] :: string)) = Inr (ck_tree, length ([] :: string) + length (encode ck_tree))"
    using readTldString_consumes_node [OF w r, of "[]"] by (rule conjunct1)
  then have 1: "readTldString ''root(1:ck(1:*(1:www!)))'' 23 0 = Inr (ck_tree, 23)"
    unfolding e by (simp only: append_Nil append_Nil2 L list.size(3) add_0)
  have w': "wf_node (Tldnode ''com'' False [])"
    by (simp add: label_ok_def)
  have r': "subnodes (Tldnode ''com'' False []) = [] \<longrightarrow>
              '',net)'' \<noteq> [] \<and> (hd '',net)'' = CHR '','' \<or> hd '',net)'' = CHR '')'')"
    by simp
  have E2: "''root(2:'' @ encode (Tldnode ''com'' False []) @ '',net)'' = ''root(2:com,net)''"
    by simp
  have L2: "length ''root(2:com,net)'' = 15"
    by simp
  have L3: "length ''root(2:'' + length (encode (Tldnode ''com'' False [])) = 10"
    by simp
  have L4: "length ''root(2:'' = 7"
    by simp
  have "readTldString (''root(2:'' @ encode (Tldnode ''com'' False []) @ '',net)'')
          (length (''root(2:'' @ encode (Tldnode ''com'' False []) @ '',net)'')) (length ''root(2:'') =
        Inr (Tldnode ''com'' False [],
             length ''root(2:'' + length (encode (Tldnode ''com'' False [])))"
    using readTldString_consumes_node [OF w' r', of "''root(2:''"] by (rule conjunct1)
  then have 2: "readTldString ''root(2:com,net)'' 15 7 = Inr (Tldnode ''com'' False [], 10)"
    unfolding E2 L2 L3 unfolding L4 .
  from w k e 1 w' 2 show ?thesis
    by simp
qed

text \<open>
  Claim C8. For every well-formed encoded node whose label text ends with \<open>!\<close> right in
  front of a delimiter (\<open>,\<close> or \<open>)\<close> for a leaf, \<open>(\<close> for a node with a child block), the
  parser marks the node as an exception node and stores the label without the \<open>!\<close>.
\<close>

theorem readTldString_exception_marker:
  assumes "wf_node (Tldnode d True cs)"
    and "cs = [] \<longrightarrow> rest \<noteq> [] \<and> (hd rest = CHR '','' \<or> hd rest = CHR '')'')"
  shows "\<exists>tail node pos.
           encode (Tldnode d True cs) @ rest = d @ ''!'' @ tail \<and>
           tail \<noteq> [] \<and> hd tail \<in> {CHR '','', CHR ''('', CHR '')''} \<and>
           readTldString (pre @ d @ ''!'' @ tail) (length (pre @ d @ ''!'' @ tail)) (length pre) =
             Inr (node, pos) \<and>
           attr node \<and> dom node = d"
proof -
  define tail where
    "tail = (if cs = [] then []
             else ''('' @ decimal (length cs) @ '':'' @ join_commas (map encode cs) @ '')'') @ rest"
  have e: "encode (Tldnode d True cs) @ rest = d @ ''!'' @ tail"
    unfolding tail_def by simp
  have t: "tail \<noteq> [] \<and> hd tail \<in> {CHR '','', CHR ''('', CHR '')''}"
    using assms(2) unfolding tail_def by auto
  have s: "pre @ d @ ''!'' @ tail = pre @ encode (Tldnode d True cs) @ rest"
    using e by simp
  have l: "subnodes (Tldnode d True cs) = [] \<longrightarrow>
             rest \<noteq> [] \<and> (hd rest = CHR '','' \<or> hd rest = CHR '')'')"
    using assms(2) by simp
  have "readTldString (pre @ d @ ''!'' @ tail) (length (pre @ d @ ''!'' @ tail)) (length pre) =
          Inr (Tldnode d True cs, length pre + length (encode (Tldnode d True cs)))"
    by (rule read_encode [OF assms(1) s l])
  then show ?thesis
    using e t by (intro exI [of _ tail] exI [of _ "Tldnode d True cs"] exI) simp
qed

theorem readTldString_exception_marker_witness:
  "wf_node (Tldnode ''www'' True []) \<and>
   (\<exists>node pos. readTldString ''*(1:www!)'' 9 4 = Inr (node, pos) \<and> attr node \<and> dom node = ''www'')"
proof -
  have w: "wf_node (Tldnode ''www'' True [])"
    by (simp add: label_ok_def)
  have r: "([] :: tldnode list) = [] \<longrightarrow> '')'' \<noteq> [] \<and> (hd '')'' = CHR '','' \<or> hd '')'' = CHR '')'')"
    by simp
  obtain tail node pos where
    t: "encode (Tldnode ''www'' True []) @ '')'' = ''www'' @ ''!'' @ tail"
    and p: "readTldString (''*(1:'' @ ''www'' @ ''!'' @ tail)
              (length (''*(1:'' @ ''www'' @ ''!'' @ tail)) (length ''*(1:'') = Inr (node, pos)"
    and a: "attr node" and m: "dom node = ''www''"
    using readTldString_exception_marker [OF w r, of "''*(1:''"] by blast
  from t have tl: "tail = '')''"
    by simp
  have E: "''*(1:'' @ ''www'' @ ''!'' @ '')'' = ''*(1:www!)''"
    by simp
  have L: "length ''*(1:www!)'' = 9"
    by simp
  have L': "length ''*(1:'' = 4"
    by simp
  have "readTldString ''*(1:www!)'' 9 4 = Inr (node, pos)"
    using p unfolding tl E L L' .
  with w a m show ?thesis
    by blast
qed

end
